theory Spec2Isabelle
  imports Main "HOL-Library.Word" "HOL-Library.Log_Nat"
begin

unbundle bit_operations_syntax

section \<open>IEEE 754 binary32, the \<open>float\<close> of the source\<close>

text \<open>
  A C++ \<open>float\<close> on the targets of this module is an IEEE 754 binary32 value, and every
  32-bit pattern is one: bit 31 is the sign, bits 30..23 the biased exponent, bits 22..0
  the fraction. Arithmetic is evaluated in binary32 itself with the default rounding,
  round to nearest with ties to even. Exact values are rationals; the integers that carry
  significands are \<open>int\<close>.
\<close>

type_synonym float32 = "32 word"

definition sign_bit :: "float32 \<Rightarrow> bool" where
  "sign_bit w = bit w 31"

definition expo :: "float32 \<Rightarrow> nat" where
  "expo w = unat (take_bit 8 (drop_bit 23 w))"

definition frac :: "float32 \<Rightarrow> int" where
  "frac w = uint (take_bit 23 w)"

definition is_nan :: "float32 \<Rightarrow> bool" where
  "is_nan w = (expo w = 255 \<and> frac w \<noteq> 0)"

definition is_inf :: "float32 \<Rightarrow> bool" where
  "is_inf w = (expo w = 255 \<and> frac w = 0)"

definition is_finite :: "float32 \<Rightarrow> bool" where
  "is_finite w = (expo w < 255)"

text \<open>
  The magnitude of a finite pattern: \<open>frac * 2^-149\<close> for a subnormal (exponent field 0),
  \<open>(2^23 + frac) * 2^(expo - 150)\<close> for a normal one.
\<close>

definition mag :: "float32 \<Rightarrow> rat" where
  "mag w = (if expo w = 0 then of_int (frac w) / 2 ^ 149
            else of_int (2 ^ 23 + frac w) * 2 ^ (expo w - 1) / 2 ^ 149)"

definition valof :: "float32 \<Rightarrow> rat" where
  "valof w = (if sign_bit w then - mag w else mag w)"

text \<open>Rounding a rational to the nearest integer, a tie going to the even neighbour.\<close>

definition round_half_even :: "rat \<Rightarrow> int" where
  "round_half_even x = (let f = \<lfloor>x\<rfloor>; r = x - of_int f in
     if r < 1 / 2 then f else if 1 / 2 < r then f + 1 else if even f then f else f + 1)"

text \<open>
  The exponent field in whose binade a magnitude lies, kept within the fields of finite
  normal numbers: \<open>E\<close> with \<open>2^(E-127) \<le> a < 2^(E-126)\<close>, 1 below the normal range
  and 254 above it.
\<close>

definition binade :: "rat \<Rightarrow> nat" where
  "binade a = max 1 (min 254 (nat (bitlen \<lfloor>a * 2 ^ 126\<rfloor>)))"

definition pack :: "bool \<Rightarrow> int \<Rightarrow> float32" where
  "pack s k = (if s then 0x80000000 else 0) + word_of_int k"

text \<open>
  Rounding a magnitude \<open>a \<ge> 0\<close> with sign \<open>s\<close> to binary32: the significand is rounded
  at the spacing \<open>2^(E-150)\<close> of the binade of \<open>a\<close>. Exponent and significand are added
  into one pattern, so a significand that rounds up to \<open>2^24\<close> carries into the exponent
  field, and a pattern that reaches \<open>0x7F800000\<close> is the overflow to infinity.
\<close>

definition fround :: "bool \<Rightarrow> rat \<Rightarrow> float32" where
  "fround s a = (let E = binade a; n = round_half_even (a * 2 ^ 149 / 2 ^ (E - 1))
     in pack s (min 0x7F800000 (int (E - 1) * 2 ^ 23 + n)))"

definition default_nan :: float32 where
  "default_nan = 0x7FC00000"

text \<open>Binary32 multiplication \<open>a * b\<close>.\<close>

definition fmul :: "float32 \<Rightarrow> float32 \<Rightarrow> float32" where
  "fmul a b =
     (if is_nan a \<or> is_nan b then default_nan
      else if is_inf a \<or> is_inf b then
        (if (is_finite a \<and> mag a = 0) \<or> (is_finite b \<and> mag b = 0) then default_nan
         else pack (sign_bit a \<noteq> sign_bit b) 0x7F800000)
      else fround (sign_bit a \<noteq> sign_bit b) (mag a * mag b))"

text \<open>Binary32 division \<open>a / b\<close>.\<close>

definition fdiv :: "float32 \<Rightarrow> float32 \<Rightarrow> float32" where
  "fdiv a b =
     (if is_nan a \<or> is_nan b then default_nan
      else if is_inf a then
        (if is_inf b then default_nan else pack (sign_bit a \<noteq> sign_bit b) 0x7F800000)
      else if is_inf b then pack (sign_bit a \<noteq> sign_bit b) 0
      else if mag b = 0 then
        (if mag a = 0 then default_nan else pack (sign_bit a \<noteq> sign_bit b) 0x7F800000)
      else fround (sign_bit a \<noteq> sign_bit b) (mag a / mag b))"

text \<open>The comparison \<open>a < b\<close>: false as soon as an operand is a NaN.\<close>

definition flt :: "float32 \<Rightarrow> float32 \<Rightarrow> bool" where
  "flt a b =
     (\<not> is_nan a \<and> \<not> is_nan b \<and>
      (if is_inf a then sign_bit a \<and> \<not> (is_inf b \<and> sign_bit b)
       else if is_inf b then \<not> sign_bit b
       else valof a < valof b))"

text \<open>\<open>std::min(a, b)\<close> is \<open>(b < a) ? b : a\<close> and \<open>std::max(a, b)\<close> is \<open>(a < b) ? b : a\<close>.\<close>

definition std_min :: "float32 \<Rightarrow> float32 \<Rightarrow> float32" where
  "std_min a b = (if flt b a then b else a)"

definition std_max :: "float32 \<Rightarrow> float32 \<Rightarrow> float32" where
  "std_max a b = (if flt a b then b else a)"

text \<open>\<open>static_cast<float>\<close> of an \<open>int16_t\<close>.\<close>

definition float_of_int16 :: "16 word \<Rightarrow> float32" where
  "float_of_int16 v = fround (sint v < 0) (of_int \<bar>sint v\<bar>)"

text \<open>
  \<open>static_cast<int16_t>\<close> of a \<open>float\<close>: the fractional part is discarded, and the
  behaviour is undefined (\<open>None\<close>) when the truncated value is not an \<open>int16_t\<close>, which
  includes every NaN and infinity.
\<close>

definition trunc_rat :: "rat \<Rightarrow> int" where
  "trunc_rat x = (if x < 0 then - \<lfloor>- x\<rfloor> else \<lfloor>x\<rfloor>)"

definition float_to_int16 :: "float32 \<Rightarrow> 16 word option" where
  "float_to_int16 x =
     (if is_finite x then
        (let t = trunc_rat (valof x) in
         if - 32768 \<le> t \<and> t \<le> 32767 then Some (word_of_int t) else None)
      else None)"

text \<open>The literals \<open>32768.0f\<close>, \<open>32767.0f\<close>, \<open>1.0f\<close> and \<open>-1.0f\<close>.\<close>

definition f32768 :: float32 where
  "f32768 = 0x47000000"

definition f32767 :: float32 where
  "f32767 = 0x46FFFE00"

definition f_one :: float32 where
  "f_one = 0x3F800000"

definition f_neg_one :: float32 where
  "f_neg_one = 0xBF800000"

section \<open>AudioBufferUtils\<close>

text \<open>
  \<open>pcmData[i]\<close> and \<open>dest[i]\<close> go through a \<open>reinterpret_cast\<close> of the byte buffer to
  \<open>int16_t*\<close>: element \<open>i\<close> is the bytes \<open>2i\<close> and \<open>2i+1\<close>, the low byte first on the
  little-endian targets of the module. An access outside the buffer is undefined
  behaviour, \<open>None\<close> here. The alignment of the buffer and the allocation of the
  result vector are outside the model: a byte list has no address, and a list of any
  length exists.
\<close>

definition read_int16 :: "8 word list \<Rightarrow> nat \<Rightarrow> 16 word option" where
  "read_int16 data i =
     (if 2 * i + 1 < length data
      then Some (word_cat (data ! (2 * i + 1)) (data ! (2 * i)))
      else None)"

definition write_int16 :: "8 word list \<Rightarrow> nat \<Rightarrow> 16 word \<Rightarrow> 8 word list option" where
  "write_int16 buf i v =
     (if 2 * i + 1 < length buf
      then Some (buf[2 * i := ucast v, 2 * i + 1 := ucast (drop_bit 8 v)])
      else None)"

text \<open>The body of the loop of \<open>pcm16ToFloat\<close>: \<open>static_cast<float>(pcmData[i]) / 32768.0f\<close>.\<close>

definition pcm16_sample :: "16 word \<Rightarrow> float32" where
  "pcm16_sample v = fdiv (float_of_int16 v) f32768"

text \<open>
  The body of the loop of \<open>floatToPcm16\<close>:
  \<open>clamped = std::max(-1.0f, std::min(1.0f, samples[i]))\<close>, then
  \<open>static_cast<int16_t>(clamped * 32767.0f)\<close>.
\<close>

definition clamped :: "float32 \<Rightarrow> float32" where
  "clamped s = std_max f_neg_one (std_min f_one s)"

definition float_sample :: "float32 \<Rightarrow> 16 word option" where
  "float_sample s = float_to_int16 (fmul (clamped s) f32767)"

text \<open>The \<open>int16_t\<close> that this cast yields whenever it is defined.\<close>

definition pcm16_value :: "float32 \<Rightarrow> 16 word" where
  "pcm16_value s = word_of_int (trunc_rat (valof (fmul (clamped s) f32767)))"

text \<open>
  \<open>for (size_t i = 0; i < sampleCount; ++i) samples[i] = ...\<close>, from the index \<open>i\<close> on.
  The subscript of a \<open>std::vector\<close> is not checked, so a write past its end is undefined
  behaviour as well.
\<close>

function pcm16ToFloat_loop ::
  "8 word list \<Rightarrow> nat \<Rightarrow> nat \<Rightarrow> float32 list \<Rightarrow> float32 list option" where
  "pcm16ToFloat_loop data sampleCount i samples =
     (if i < sampleCount then
        (case read_int16 data i of
           None \<Rightarrow> None
         | Some v \<Rightarrow>
             if i < length samples
             then pcm16ToFloat_loop data sampleCount (i + 1) (samples[i := pcm16_sample v])
             else None)
      else Some samples)"
  by pat_completeness auto
termination
  by (relation "measure (\<lambda>(data, sampleCount, i, samples). sampleCount - i)") auto

text \<open>
  \<open>pcm16ToFloat(data, byteLength)\<close>: the byte list is the \<open>byteLength\<close> bytes at
  \<open>data\<close>; \<open>std::vector<float> samples(sampleCount)\<close> starts as zeros.
\<close>

definition pcm16ToFloat :: "8 word list \<Rightarrow> float32 list option" where
  "pcm16ToFloat data =
     (let sampleCount = length data div 2
      in pcm16ToFloat_loop data sampleCount 0 (replicate sampleCount 0))"

function floatToPcm16_loop ::
  "float32 list \<Rightarrow> nat \<Rightarrow> 8 word list \<Rightarrow> 8 word list option" where
  "floatToPcm16_loop samples i pcmData =
     (if i < length samples then
        (case float_sample (samples ! i) of
           None \<Rightarrow> None
         | Some v \<Rightarrow>
             (case write_int16 pcmData i v of
                None \<Rightarrow> None
              | Some pcmData' \<Rightarrow> floatToPcm16_loop samples (i + 1) pcmData'))
      else Some pcmData)"
  by pat_completeness auto
termination
  by (relation "measure (\<lambda>(samples, i, pcmData). length samples - i)") auto

definition floatToPcm16 :: "float32 list \<Rightarrow> 8 word list option" where
  "floatToPcm16 samples = floatToPcm16_loop samples 0 (replicate (length samples * 2) 0)"

section \<open>Rounding to binary32\<close>

lemma sign_bit_uint: "sign_bit w = (2 ^ 31 \<le> uint w)"
proof -
  have b: "uint w < 4294967296" using uint_bounded [of w] by simp
  have n: "0 \<le> uint w" by simp
  have "sign_bit w = bit (uint w) 31"
    by (simp add: sign_bit_def bit_uint_iff)
  then have o: "sign_bit w = odd (uint w div 2147483648)"
    by (simp add: bit_iff_odd [where ?'a = int])
  show ?thesis
  proof (cases "2147483648 \<le> uint w")
    case True
    have "uint w div 2147483648 = 1"
      by (rule int_div_pos_eq [where r = "uint w - 2147483648"]) (use True b in auto)
    then show ?thesis using True o by simp
  next
    case False
    have "uint w div 2147483648 = 0"
      by (rule int_div_pos_eq [where r = "uint w"]) (use False n in auto)
    then show ?thesis using False o by simp
  qed
qed

lemma frac_uint: "frac w = uint w mod 2 ^ 23"
  unfolding frac_def unsigned_take_bit_eq by (simp only: take_bit_eq_mod [where ?'a = int])

lemma expo_uint: "int (expo w) = (uint w div 2 ^ 23) mod 2 ^ 8"
proof -
  have "expo w = take_bit 8 (drop_bit 23 (unat w))"
    unfolding expo_def unsigned_take_bit_eq unat_drop_bit_eq ..
  then have "expo w = (unat w div 2 ^ 23) mod 2 ^ 8"
    by (simp only: take_bit_eq_mod [where ?'a = nat] drop_bit_eq_div [where ?'a = nat])
  then have "int (expo w) = int (unat w div 2 ^ 23 mod 2 ^ 8)"
    by simp
  also have "\<dots> = int (unat w) div 2 ^ 23 mod 2 ^ 8"
    by (simp add: zdiv_int zmod_int)
  finally show ?thesis
    by (simp only: uint_nat)
qed

lemma uint_pack:
  assumes "0 \<le> k" "k < 2147483648"
  shows "uint (pack s k) = (if s then 2147483648 else 0) + k"
proof -
  have eq: "pack s k = word_of_int ((if s then 2147483648 else 0) + k)"
    by (simp add: pack_def)
  have "0 \<le> (if s then 2147483648 else 0) + k" "(if s then 2147483648 else 0) + k < 2 ^ 32"
    using assms by auto
  then have "((if s then 2147483648 else 0) + k) mod 2 ^ 32 = (if s then 2147483648 else 0) + k"
    by (rule mod_pos_pos_trivial)
  then show ?thesis
    unfolding eq uint_word_of_int by simp
qed

lemma fields_pack:
  assumes e: "0 \<le> e" "e < 256" and f: "0 \<le> f" "f < 8388608"
  shows "sign_bit (pack s (e * 8388608 + f)) = s"
    and "expo (pack s (e * 8388608 + f)) = nat e"
    and "frac (pack s (e * 8388608 + f)) = f"
proof -
  let ?k = "e * 8388608 + f"
  let ?h = "(if s then 256 else 0) :: int"
  have k: "0 \<le> ?k" "?k < 2147483648" using e f by auto
  have u: "uint (pack s ?k) = ?h * 8388608 + ?k"
    using uint_pack [OF k] by simp
  show "sign_bit (pack s ?k) = s"
    using k by (simp add: sign_bit_uint u)
  have d: "(?h * 8388608 + ?k) div 8388608 = ?h + e"
    by (rule int_div_pos_eq [where r = f]) (use f in \<open>auto simp: algebra_simps\<close>)
  have m: "(?h + e) mod 256 = e"
    by (rule int_mod_pos_eq [where q = "if s then 1 else 0"]) (use e in auto)
  have "int (expo (pack s ?k)) = e"
    unfolding expo_uint u using d m by simp
  then show "expo (pack s ?k) = nat e" by simp
  have fm: "(?h * 8388608 + ?k) mod 8388608 = f"
    by (rule int_mod_pos_eq [where q = "?h + e"]) (use f in \<open>auto simp: algebra_simps\<close>)
  show "frac (pack s ?k) = f"
    unfolding frac_uint u using fm by simp
qed


lemma round_half_even_ge_floor: "\<lfloor>x\<rfloor> \<le> round_half_even x"
  by (simp add: round_half_even_def Let_def)

lemma round_half_even_le_floor1: "round_half_even x \<le> \<lfloor>x\<rfloor> + 1"
  by (simp add: round_half_even_def Let_def)

lemma round_half_even_of_int: "round_half_even (of_int m) = m"
  by (simp add: round_half_even_def Let_def)

lemma round_half_even_lower: "of_int m \<le> x \<Longrightarrow> m \<le> round_half_even x"
  using round_half_even_ge_floor [of x] by (simp add: le_floor_iff [symmetric])

lemma round_half_even_upper:
  assumes "x \<le> of_int m"
  shows "round_half_even x \<le> m"
proof (cases "x = of_int m")
  case True
  then show ?thesis by (simp add: round_half_even_of_int)
next
  case False
  with assms have "x < of_int m" by simp
  then have "\<lfloor>x\<rfloor> < m" by (simp add: floor_less_iff)
  then show ?thesis using round_half_even_le_floor1 [of x] by simp
qed

lemma binade_range: "1 \<le> binade a" "binade a \<le> 254"
  by (simp_all add: binade_def)

lemma binade_lower:
  assumes "1 < binade a"
  shows "2 ^ (binade a - 1) \<le> a * 2 ^ 126"
proof -
  let ?x = "\<lfloor>a * 2 ^ 126\<rfloor>"
  let ?b = "nat (bitlen ?x)"
  from assms have b1: "1 < ?b" and le: "binade a \<le> ?b"
    by (auto simp: binade_def max_def min_def split: if_splits)
  then have pos: "0 < ?x"
    using bitlen_eq_zero_iff [of ?x] by (cases "0 < ?x") auto
  have "(2::int) ^ (binade a - 1) \<le> 2 ^ (?b - 1)"
    using le by (intro power_increasing) auto
  also have "?b - 1 = nat (bitlen ?x - 1)" by simp
  also have "2 ^ nat (bitlen ?x - 1) \<le> ?x"
    using bitlen_bounds [OF pos] by simp
  finally have "(2::int) ^ (binade a - 1) \<le> ?x" .
  then have "of_int (2 ^ (binade a - 1)) \<le> a * 2 ^ 126"
    by (simp only: le_floor_iff)
  then show ?thesis by simp
qed

lemma binade_upper:
  assumes "a * 2 ^ 126 < 2 ^ K" "1 \<le> K" "K \<le> 254"
  shows "binade a \<le> K" and "a * 2 ^ 126 < 2 ^ binade a"
proof -
  let ?x = "\<lfloor>a * 2 ^ 126\<rfloor>"
  let ?b = "nat (bitlen ?x)"
  have "a * 2 ^ 126 < of_int (2 ^ K)" using assms(1) by simp
  then have xK: "?x < 2 ^ K" by (simp only: floor_less_iff)
  then have "bitlen ?x \<le> int K"
    by (simp add: bitlen_le_iff_power)
  then have bK: "?b \<le> K" by simp
  then show "binade a \<le> K"
    using assms(2) by (simp add: binade_def)
  have bb: "?b \<le> binade a"
    using bK assms(3) by (simp add: binade_def)
  have "?x < 2 ^ ?b"
  proof (cases "0 < ?x")
    case True
    then show ?thesis using bitlen_bounds [OF True] by simp
  next
    case False
    then have "?x \<le> 0" by simp
    also have "(0::int) < 2 ^ ?b" by simp
    finally show ?thesis .
  qed
  also have "(2::int) ^ ?b \<le> 2 ^ binade a"
    using bb by (intro power_increasing) auto
  finally have "?x < 2 ^ binade a" .
  then have "a * 2 ^ 126 < of_int (2 ^ binade a)"
    by (simp only: floor_less_iff)
  then show "a * 2 ^ 126 < 2 ^ binade a" by simp
qed


lemma pow2_split: "i \<le> j \<Longrightarrow> (2::rat) ^ j = 2 ^ (j - i) * 2 ^ i"
  by (simp flip: power_add)

lemma fround_fields:
  assumes a: "0 \<le> a" "a * 2 ^ 126 < 2 ^ 253"
  shows "is_finite (fround s a)"
    and "sign_bit (fround s a) = s"
    and "mag (fround s a) =
           of_int (round_half_even (a * 2 ^ 149 / 2 ^ (binade a - 1))) * 2 ^ (binade a - 1) / 2 ^ 149"
proof -
  define E where "E = binade a"
  define x where "x = a * 2 ^ 149 / 2 ^ (E - 1)"
  define n where "n = round_half_even x"
  have E1: "1 \<le> E" unfolding E_def by (rule binade_range)
  have E253: "E \<le> 253" and up: "a * 2 ^ 126 < 2 ^ E"
    unfolding E_def using binade_upper [OF a(2)] by simp_all
  have pE: "(2::rat) ^ E = 2 * 2 ^ (E - 1)"
    using E1 by (cases E) simp_all
  have x_eq: "x = (a * 2 ^ 126) * 2 ^ 23 / 2 ^ (E - 1)"
    by (simp add: x_def)
  have "x < (2 ^ E) * 2 ^ 23 / 2 ^ (E - 1)"
    unfolding x_eq using up by (simp add: divide_strict_right_mono)
  also have "\<dots> = of_int 16777216" by (simp add: pE)
  finally have xlt: "x \<le> of_int 16777216" by simp
  have n_up: "n \<le> 16777216"
    unfolding n_def using xlt by (rule round_half_even_upper)
  have "of_int 0 \<le> x" using a(1) by (simp add: x_def)
  then have n0: "0 \<le> n"
    unfolding n_def by (rule round_half_even_lower)
  have n_low: "8388608 \<le> n" if "1 < E"
  proof -
    have "2 ^ (E - 1) \<le> a * 2 ^ 126"
      using that binade_lower [of a] by (simp add: E_def)
    then have "2 ^ (E - 1) * 8388608 \<le> (a * 2 ^ 126) * (8388608::rat)"
      by (rule mult_right_mono) simp
    then have "2 ^ (E - 1) * 8388608 / 2 ^ (E - 1) \<le> (a * 2 ^ 126) * 8388608 / (2::rat) ^ (E - 1)"
      by (rule divide_right_mono) simp
    moreover have "(2::rat) ^ (E - 1) * 8388608 / 2 ^ (E - 1) = 8388608" by simp
    moreover have "(a * 2 ^ 126) * 8388608 / 2 ^ (E - 1) = x" by (simp add: x_def)
    ultimately have "of_int 8388608 \<le> x" by simp
    then show ?thesis unfolding n_def by (rule round_half_even_lower)
  qed
  have fr: "fround s a = pack s (min 2139095040 (int (E - 1) * 8388608 + n))"
    by (simp add: fround_def Let_def E_def n_def x_def)
  have "int (E - 1) * 8388608 + n \<le> 252 * 8388608 + 16777216"
    using E253 n_up by (intro add_mono mult_right_mono) auto
  then have fr': "fround s a = pack s (int (E - 1) * 8388608 + n)"
    unfolding fr by simp
  consider (sub) "n < 8388608" | (nor) "8388608 \<le> n" "n < 16777216" | (car) "n = 16777216"
    using n_up by linarith
  then have "is_finite (fround s a) \<and> sign_bit (fround s a) = s \<and>
    mag (fround s a) = of_int n * 2 ^ (E - 1) / 2 ^ 149"
  proof cases
    case sub
    then have "E = 1" using n_low E1 by (cases "1 < E") auto
    then have "fround s a = pack s (0 * 8388608 + n)" by (simp add: fr')
    moreover note fields_pack [of 0 n s]
    ultimately show ?thesis
      using sub n0 \<open>E = 1\<close> by (simp add: is_finite_def mag_def)
  next
    case nor
    have "int (E - 1) * 8388608 + n = int E * 8388608 + (n - 8388608)"
      using E1 by (simp add: of_nat_diff algebra_simps)
    then have "fround s a = pack s (int E * 8388608 + (n - 8388608))" by (simp only: fr')
    moreover have "0 \<le> int E" "int E < 256" "0 \<le> n - 8388608" "n - 8388608 < 8388608"
      using nor E253 by auto
    note fields_pack [OF this, of s]
    ultimately show ?thesis
      using E1 E253 by (simp add: is_finite_def mag_def)
  next
    case car
    have "int (E - 1) * 8388608 + n = int (E + 1) * 8388608 + 0"
      using E1 car by (simp add: of_nat_diff algebra_simps)
    then have eq: "fround s a = pack s (int (E + 1) * 8388608 + 0)" by (simp only: fr')
    have "0 \<le> int (E + 1)" "int (E + 1) < 256" "(0::int) \<le> 0" "(0::int) < 8388608"
      using E253 by auto
    note fp = fields_pack [OF this, of s, folded eq]
    have "expo (fround s a) = E + 1"
      using fp(2) by (simp only: nat_int)
    then show ?thesis
      using fp(1,3) E1 E253 car by (simp add: is_finite_def mag_def pE)
  qed
  then show "is_finite (fround s a)" "sign_bit (fround s a) = s"
    "mag (fround s a) =
       of_int (round_half_even (a * 2 ^ 149 / 2 ^ (binade a - 1))) * 2 ^ (binade a - 1) / 2 ^ 149"
    by (simp_all add: n_def x_def E_def)
qed


lemma fround_grid:
  assumes a: "0 \<le> a" "a * 2 ^ t < 2 ^ 24" and t: "t \<le> 126"
  shows "is_finite (fround s a)"
    and "sign_bit (fround s a) = s"
    and "of_int m / 2 ^ t \<le> a \<Longrightarrow> of_int m / 2 ^ t \<le> mag (fround s a)"
    and "a \<le> of_int m / 2 ^ t \<Longrightarrow> mag (fround s a) \<le> of_int m / 2 ^ t"
proof -
  define E where "E = binade a"
  define j where "j = 150 - t - E"
  define P :: rat where "P = 2 ^ (E - 1)"
  define J :: rat where "J = 2 ^ j"
  define T :: rat where "T = 2 ^ t"
  define n where "n = round_half_even (a * 2 ^ 149 / P)"
  have pos: "0 < P" "0 < J" "0 < T" by (simp_all add: P_def J_def T_def)
  have "(a * 2 ^ t) * 2 ^ (126 - t) < 2 ^ 24 * (2::rat) ^ (126 - t)"
    using a(2) by (rule mult_strict_right_mono) simp
  moreover have "(2::rat) ^ 126 = 2 ^ (t + (126 - t))"
    using t by simp
  then have "(2::rat) ^ 126 = 2 ^ t * 2 ^ (126 - t)"
    by (simp only: power_add)
  then have "(a * 2 ^ t) * 2 ^ (126 - t) = a * 2 ^ 126"
    by (simp only: mult.assoc)
  moreover have "(2::rat) ^ (150 - t) = 2 ^ (24 + (126 - t))"
    using t by simp
  then have "2 ^ 24 * (2::rat) ^ (126 - t) = 2 ^ (150 - t)"
    by (simp only: power_add)
  ultimately have A: "a * 2 ^ 126 < 2 ^ (150 - t)"
    by (simp only:)
  have EK: "E \<le> 150 - t"
    unfolding E_def using t by (intro binade_upper(1) [OF A]) auto
  have E1: "1 \<le> E" unfolding E_def by (rule binade_range)
  have "(2::rat) ^ (150 - t) \<le> 2 ^ 253"
    by (rule power_increasing) auto
  with A have A253: "a * 2 ^ 126 < 2 ^ 253" by simp
  note ff = fround_fields [OF a(1) A253, of s]
  show "is_finite (fround s a)" "sign_bit (fround s a) = s"
    by (rule ff)+
  have "149 = (E - 1) + j + t"
    using EK E1 t by (simp add: j_def)
  then have "(2::rat) ^ 149 = 2 ^ ((E - 1) + j + t)" by simp
  then have p149: "(2::rat) ^ 149 = P * J * T"
    by (simp only: power_add P_def J_def T_def)
  have x_eq: "a * 2 ^ 149 / P = a * T * J"
    unfolding p149 using pos by simp
  have mg: "mag (fround s a) = of_int n / (J * T)"
    unfolding ff(3) n_def E_def [symmetric] P_def [symmetric] p149 using pos by simp
  have gm: "of_int m / 2 ^ t = of_int (m * 2 ^ j) / (J * T)"
    using pos by (simp add: J_def T_def)
  show "of_int m / 2 ^ t \<le> mag (fround s a)" if "of_int m / 2 ^ t \<le> a"
  proof -
    from that have "of_int m \<le> a * T"
      using pos by (simp add: T_def pos_divide_le_eq)
    then have "of_int m * J \<le> a * T * J"
      using pos by (simp add: mult_right_mono)
    then have "of_int (m * 2 ^ j) \<le> a * 2 ^ 149 / P"
      unfolding x_eq by (simp add: J_def)
    then have "m * 2 ^ j \<le> n"
      unfolding n_def by (rule round_half_even_lower)
    then have "(of_int (m * 2 ^ j) :: rat) \<le> of_int n"
      by (simp only: of_int_le_iff)
    then show ?thesis
      unfolding mg gm using pos by (simp add: divide_right_mono)
  qed
  show "mag (fround s a) \<le> of_int m / 2 ^ t" if "a \<le> of_int m / 2 ^ t"
  proof -
    from that have "a * T \<le> of_int m"
      using pos by (simp add: T_def pos_le_divide_eq)
    then have "a * T * J \<le> of_int m * J"
      using pos by (simp add: mult_right_mono)
    then have "a * 2 ^ 149 / P \<le> of_int (m * 2 ^ j)"
      unfolding x_eq by (simp add: J_def)
    then have "n \<le> m * 2 ^ j"
      unfolding n_def by (rule round_half_even_upper)
    then have "(of_int n :: rat) \<le> of_int (m * 2 ^ j)"
      by (simp only: of_int_le_iff)
    then show ?thesis
      unfolding mg gm using pos by (simp add: divide_right_mono)
  qed
qed

section \<open>The conversions of one sample\<close>

lemma expo_le: "expo w \<le> 255"
proof -
  have "int (expo w) < 2 ^ 8"
    unfolding expo_uint by (rule pos_mod_bound) simp
  then show ?thesis by simp
qed

lemma frac_nonneg: "0 \<le> frac w"
  by (simp add: frac_def)

lemma mag_nonneg: "0 \<le> mag w"
  using frac_nonneg [of w] by (simp add: mag_def)

lemma finite_iff: "is_finite w \<longleftrightarrow> \<not> is_nan w \<and> \<not> is_inf w"
  using expo_le [of w] by (auto simp: is_finite_def is_nan_def is_inf_def)

lemma f32768_fields: "is_finite f32768" "\<not> sign_bit f32768" "mag f32768 = 32768"
  by (simp_all add: f32768_def is_finite_def sign_bit_def mag_def expo_def frac_def)

lemma f32767_fields: "is_finite f32767" "\<not> sign_bit f32767" "mag f32767 = 32767"
  by (simp_all add: f32767_def is_finite_def sign_bit_def mag_def expo_def frac_def)

lemma f_one_fields: "is_finite f_one" "\<not> sign_bit f_one" "mag f_one = 1"
  by (simp_all add: f_one_def is_finite_def sign_bit_def mag_def expo_def frac_def)

lemma f_neg_one_fields: "is_finite f_neg_one" "sign_bit f_neg_one" "mag f_neg_one = 1"
  by (simp_all add: f_neg_one_def is_finite_def sign_bit_def mag_def expo_def frac_def)

lemma float_of_int16_fields:
  shows "is_finite (float_of_int16 v)"
    and "sign_bit (float_of_int16 v) = (sint v < 0)"
    and "mag (float_of_int16 v) = of_int \<bar>sint v\<bar>"
proof -
  let ?m = "\<bar>sint v\<bar>"
  have "- 32768 \<le> sint v" "sint v < 32768"
    using sint_ge [of v] sint_lt [of v] by simp_all
  then have "?m < 16777216" by simp
  then have "(of_int ?m :: rat) < of_int 16777216"
    by (simp only: of_int_less_iff)
  then have a: "(0::rat) \<le> of_int ?m" "(of_int ?m :: rat) * 2 ^ 0 < 2 ^ 24"
    by simp_all
  note g = fround_grid [OF a, where s = "sint v < 0", folded float_of_int16_def]
  show "is_finite (float_of_int16 v)" "sign_bit (float_of_int16 v) = (sint v < 0)"
    using g(1,2) by simp_all
  have "of_int ?m \<le> mag (float_of_int16 v)" "mag (float_of_int16 v) \<le> of_int ?m"
    using g(3) [of ?m] g(4) [of ?m] by simp_all
  then show "mag (float_of_int16 v) = of_int ?m" by simp
qed

lemma pcm16_sample_fields:
  shows "is_finite (pcm16_sample v)"
    and "sign_bit (pcm16_sample v) = (sint v < 0)"
    and "mag (pcm16_sample v) = of_int \<bar>sint v\<bar> / 32768"
proof -
  let ?m = "\<bar>sint v\<bar>"
  let ?a = "of_int ?m / 32768 :: rat"
  note fi = float_of_int16_fields [of v]
  have eq: "pcm16_sample v = fround (sint v < 0) ?a"
    using fi f32768_fields by (simp add: pcm16_sample_def fdiv_def finite_iff)
  have "- 32768 \<le> sint v" "sint v < 32768"
    using sint_ge [of v] sint_lt [of v] by simp_all
  then have "?m < 16777216" by simp
  then have "(of_int ?m :: rat) < of_int 16777216"
    by (simp only: of_int_less_iff)
  then have a: "0 \<le> ?a" "?a * 2 ^ 15 < 2 ^ 24"
    by simp_all
  note g = fround_grid [OF a, where s = "sint v < 0", folded eq]
  show "is_finite (pcm16_sample v)" "sign_bit (pcm16_sample v) = (sint v < 0)"
    using g(1,2) by simp_all
  have "?a \<le> mag (pcm16_sample v)" "mag (pcm16_sample v) \<le> ?a"
    using g(3) [of ?m] g(4) [of ?m] by simp_all
  then show "mag (pcm16_sample v) = ?a" by simp
qed

lemma valof_pcm16_sample: "valof (pcm16_sample v) = of_int (sint v) / 32768"
  by (simp add: valof_def pcm16_sample_fields)


lemma flt_one_neg_one: "flt f_neg_one f_one"
  using f_one_fields f_neg_one_fields by (simp add: flt_def finite_iff valof_def)

lemma clamped_nan: "is_nan s \<Longrightarrow> clamped s = f_one"
  using flt_one_neg_one by (simp add: clamped_def std_max_def std_min_def flt_def)

lemma clamped_pos_inf: "is_inf s \<Longrightarrow> \<not> sign_bit s \<Longrightarrow> clamped s = f_one"
  using flt_one_neg_one by (simp add: clamped_def std_max_def std_min_def flt_def)

lemma clamped_neg_inf:
  assumes "is_inf s" "sign_bit s"
  shows "clamped s = f_neg_one"
proof -
  have "\<not> is_nan s" using assms(1) by (simp add: is_inf_def is_nan_def)
  then show ?thesis
    using assms f_one_fields f_neg_one_fields
    by (simp add: clamped_def std_max_def std_min_def flt_def finite_iff)
qed

lemma clamped_cases:
  obtains (one) "clamped s = f_one"
  | (neg_one) "clamped s = f_neg_one"
  | (self) "clamped s = s" "is_finite s" "- 1 < valof s" "valof s < 1"
proof (cases "flt s f_one")
  case False
  then have "clamped s = f_one"
    using flt_one_neg_one by (simp add: clamped_def std_max_def std_min_def)
  then show ?thesis by (rule one)
next
  case lt1: True
  then have m: "clamped s = (if flt f_neg_one s then s else f_neg_one)"
    by (simp add: clamped_def std_max_def std_min_def)
  show ?thesis
  proof (cases "flt f_neg_one s")
    case False
    then show ?thesis using m by (intro neg_one) simp
  next
    case True
    have fin: "is_finite s"
      using lt1 True f_one_fields f_neg_one_fields
      by (auto simp: flt_def finite_iff split: if_splits)
    then have "\<not> is_inf s" by (simp add: finite_iff)
    then have "- 1 < valof s" "valof s < 1"
      using lt1 True f_one_fields f_neg_one_fields
      by (simp_all add: flt_def finite_iff valof_def)
    then show ?thesis using m True fin by (intro self) simp_all
  qed
qed

lemma clamped_fields: "is_finite (clamped s)" "mag (clamped s) \<le> 1"
proof -
  have "is_finite (clamped s) \<and> mag (clamped s) \<le> 1"
  proof (cases s rule: clamped_cases)
    case one
    then show ?thesis using f_one_fields by simp
  next
    case neg_one
    then show ?thesis using f_neg_one_fields by simp
  next
    case self
    then show ?thesis by (auto simp: valof_def split: if_splits)
  qed
  then show "is_finite (clamped s)" "mag (clamped s) \<le> 1" by simp_all
qed

text \<open>For an input that is not a NaN, \<open>clamped\<close> has the value of the clamp to [-1, 1].\<close>

lemma valof_clamped:
  assumes "\<not> is_nan s"
  shows "valof (clamped s) =
    (if flt s f_neg_one then - 1 else if flt f_one s then 1 else valof s)"
proof (cases "is_inf s")
  case True
  then show ?thesis
    using assms clamped_pos_inf [of s] clamped_neg_inf [of s] f_one_fields f_neg_one_fields
    by (cases "sign_bit s") (simp_all add: flt_def finite_iff valof_def)
next
  case False
  with assms have fin: "is_finite s" by (simp add: finite_iff)
  have l: "flt s f_neg_one \<longleftrightarrow> valof s < - 1" "flt f_one s \<longleftrightarrow> 1 < valof s"
    "flt s f_one \<longleftrightarrow> valof s < 1" "flt f_neg_one s \<longleftrightarrow> - 1 < valof s"
    using fin f_one_fields f_neg_one_fields by (simp_all add: flt_def finite_iff valof_def)
  have v: "valof f_one = 1" "valof f_neg_one = - 1"
    using f_one_fields f_neg_one_fields by (simp_all add: valof_def)
  show ?thesis
    unfolding clamped_def std_max_def std_min_def using l v flt_one_neg_one by auto
qed

lemma clamped_in_range:
  assumes "is_finite s" "- 1 \<le> valof s" "valof s \<le> 1"
  shows "sign_bit (clamped s) = sign_bit s" "mag (clamped s) = mag s"
proof -
  have ni: "\<not> is_nan s" "\<not> is_inf s"
    using assms(1) by (simp_all add: finite_iff)
  have "sign_bit (clamped s) = sign_bit s \<and> mag (clamped s) = mag s"
  proof (cases s rule: clamped_cases)
    case self
    then show ?thesis by simp
  next
    case one
    from valof_clamped [OF ni(1)] one have "valof s = 1 \<or> 1 < valof s"
      using f_one_fields f_neg_one_fields ni
      by (auto simp: valof_def flt_def finite_iff split: if_splits)
    with assms(3) have "valof s = 1" by simp
    then show ?thesis
      using one f_one_fields mag_nonneg [of s] by (auto simp: valof_def split: if_splits)
  next
    case neg_one
    from valof_clamped [OF ni(1)] neg_one have "valof s = - 1 \<or> valof s < - 1"
      using f_neg_one_fields f_one_fields ni
      by (auto simp: valof_def flt_def finite_iff split: if_splits)
    with assms(2) have "valof s = - 1" by simp
    then show ?thesis
      using neg_one f_neg_one_fields mag_nonneg [of s] by (auto simp: valof_def split: if_splits)
  qed
  then show "sign_bit (clamped s) = sign_bit s" "mag (clamped s) = mag s" by simp_all
qed


lemma fmul_clamped:
  "fmul (clamped s) f32767 = fround (sign_bit (clamped s)) (mag (clamped s) * 32767)"
  using clamped_fields [of s] f32767_fields by (simp add: fmul_def finite_iff)

lemma trunc_rat_valof:
  "trunc_rat (valof w) = (if sign_bit w then - \<lfloor>mag w\<rfloor> else \<lfloor>mag w\<rfloor>)"
  using mag_nonneg [of w] by (auto simp: trunc_rat_def valof_def)

lemma product_fields:
  fixes s :: float32
  defines "a \<equiv> mag (clamped s) * 32767"
  defines "p \<equiv> fmul (clamped s) f32767"
  shows "is_finite p"
    and "sign_bit p = sign_bit (clamped s)"
    and "\<lfloor>a\<rfloor> \<le> \<lfloor>mag p\<rfloor>"
    and "\<lfloor>mag p\<rfloor> \<le> \<lceil>a\<rceil>"
    and "\<lfloor>mag p\<rfloor> \<le> 32767"
    and "0 \<le> \<lfloor>mag p\<rfloor>"
proof -
  have a0: "0 \<le> a"
    unfolding a_def using mag_nonneg [of "clamped s"] by simp
  have a1: "a \<le> 32767"
    unfolding a_def using clamped_fields(2) [of s] by simp
  then have a2: "a * 2 ^ 0 < 2 ^ 24" by simp
  have eq: "p = fround (sign_bit (clamped s)) a"
    unfolding p_def a_def by (rule fmul_clamped)
  note g = fround_grid [OF a0 a2, where s = "sign_bit (clamped s)", folded eq]
  show "is_finite p" "sign_bit p = sign_bit (clamped s)"
    using g(1,2) by simp_all
  have "of_int \<lfloor>a\<rfloor> \<le> mag p"
    using g(3) [of "\<lfloor>a\<rfloor>"] by simp
  then show "\<lfloor>a\<rfloor> \<le> \<lfloor>mag p\<rfloor>"
    by (simp only: le_floor_iff)
  have "mag p \<le> of_int \<lceil>a\<rceil>"
    using g(4) [of "\<lceil>a\<rceil>"] by simp
  then show "\<lfloor>mag p\<rfloor> \<le> \<lceil>a\<rceil>"
    by (simp add: floor_le_iff)
  have "mag p \<le> of_int 32767"
    using g(4) [of 32767] a1 by simp
  then show "\<lfloor>mag p\<rfloor> \<le> 32767"
    by (simp add: floor_le_iff)
  show "0 \<le> \<lfloor>mag p\<rfloor>"
    using mag_nonneg [of p] by simp
qed

lemma sint_word_of_int16:
  assumes "- 32768 \<le> t" "t \<le> 32767"
  shows "sint (word_of_int t :: 16 word) = t"
proof -
  have "signed_take_bit 15 t = t"
    by (rule signed_take_bit_int_eq_self) (use assms in simp_all)
  then show ?thesis by (simp add: sint_sbintrunc')
qed

lemma float_sample_Some:
  fixes s :: float32
  defines "t \<equiv> trunc_rat (valof (fmul (clamped s) f32767))"
  shows "float_sample s = Some (word_of_int t)"
    and "- 32767 \<le> t" and "t \<le> 32767"
    and "sint (word_of_int t :: 16 word) = t"
proof -
  note pf = product_fields [of s]
  define q where "q = \<lfloor>mag (fmul (clamped s) f32767)\<rfloor>"
  have q: "0 \<le> q" "q \<le> 32767"
    unfolding q_def by (rule pf(6), rule pf(5))
  have t_eq: "t = (if sign_bit (clamped s) then - q else q)"
    unfolding t_def q_def trunc_rat_valof pf(2) ..
  show lo: "- 32767 \<le> t" and hi: "t \<le> 32767"
    unfolding t_eq using q by simp_all
  then show "float_sample s = Some (word_of_int t)"
    using pf(1) by (simp add: float_sample_def float_to_int16_def t_def Let_def)
  show "sint (word_of_int t :: 16 word) = t"
    using lo hi by (intro sint_word_of_int16) simp_all
qed

section \<open>The loops\<close>

lemma read_int16_Some:
  "2 * i + 1 < length data \<Longrightarrow>
   read_int16 data i = Some (word_cat (data ! (2 * i + 1)) (data ! (2 * i)))"
  by (simp add: read_int16_def)

lemma pcm16ToFloat_loop_eq:
  assumes "2 * n \<le> length data" "length samples = n" "i \<le> n"
  shows "pcm16ToFloat_loop data n i samples =
    Some (take i samples @
          map (\<lambda>j. pcm16_sample (word_cat (data ! (2 * j + 1)) (data ! (2 * j)))) [i..<n])"
  using assms
proof (induction data n i samples rule: pcm16ToFloat_loop.induct)
  case (1 data n i samples)
  show ?case
  proof (cases "i < n")
    case False
    with "1.prems" show ?thesis by simp
  next
    case True
    let ?v = "word_cat (data ! (2 * i + 1)) (data ! (2 * i)) :: 16 word"
    have rd: "read_int16 data i = Some ?v"
      using True "1.prems"(1) by (intro read_int16_Some) simp
    have len: "i < length samples" using True "1.prems"(2) by simp
    have ih: "pcm16ToFloat_loop data n (i + 1) (samples[i := pcm16_sample ?v]) =
      Some (take (i + 1) (samples[i := pcm16_sample ?v]) @
            map (\<lambda>j. pcm16_sample (word_cat (data ! (2 * j + 1)) (data ! (2 * j)))) [i + 1..<n])"
      using True "1.prems" len by (intro "1.IH" [OF True rd len]) simp_all
    have tk: "take (i + 1) (samples[i := pcm16_sample ?v]) = take i samples @ [pcm16_sample ?v]"
      using len by (simp add: take_Suc_conv_app_nth)
    have up: "[i..<n] = i # [i + 1..<n]"
      using True by (simp add: upt_conv_Cons)
    have "pcm16ToFloat_loop data n i samples =
        pcm16ToFloat_loop data n (i + 1) (samples[i := pcm16_sample ?v])"
      by (subst pcm16ToFloat_loop.simps) (simp add: True rd len del: pcm16ToFloat_loop.simps)
    also note ih
    also have "Some (take (i + 1) (samples[i := pcm16_sample ?v]) @
            map (\<lambda>j. pcm16_sample (word_cat (data ! (2 * j + 1)) (data ! (2 * j)))) [i + 1..<n]) =
          Some (take i samples @
            map (\<lambda>j. pcm16_sample (word_cat (data ! (2 * j + 1)) (data ! (2 * j)))) [i..<n])"
      unfolding tk up by simp
    finally show ?thesis .
  qed
qed

lemma pcm16ToFloat_eq:
  "pcm16ToFloat data =
     Some (map (\<lambda>j. pcm16_sample (word_cat (data ! (2 * j + 1)) (data ! (2 * j))))
             [0..<length data div 2])"
  unfolding pcm16ToFloat_def Let_def
  by (subst pcm16ToFloat_loop_eq) simp_all

lemma word_cat_bytes:
  "word_cat (ucast (drop_bit 8 v) :: 8 word) (ucast v :: 8 word) = (v :: 16 word)"
  by (rule bit_word_eqI) (auto simp: bit_simps)

lemma write_int16_Some:
  "2 * i + 1 < length buf \<Longrightarrow>
   write_int16 buf i v = Some (buf[2 * i := ucast v, 2 * i + 1 := ucast (drop_bit 8 v)])"
  by (simp add: write_int16_def)

lemma floatToPcm16_loop_eq:
  assumes "length pcmData = 2 * length samples" "i \<le> length samples"
  shows "floatToPcm16_loop samples i pcmData =
    Some (take (2 * i) pcmData @
          concat (map (\<lambda>j. [ucast (pcm16_value (samples ! j)), ucast (drop_bit 8 (pcm16_value (samples ! j)))])
            [i..<length samples]))"
  using assms
proof (induction samples i pcmData rule: floatToPcm16_loop.induct)
  case (1 samples i pcmData)
  show ?case
  proof (cases "i < length samples")
    case False
    with "1.prems" show ?thesis by simp
  next
    case True
    let ?v = "pcm16_value (samples ! i)"
    let ?buf = "pcmData[2 * i := ucast ?v, 2 * i + 1 := ucast (drop_bit 8 ?v)]"
    have fs: "float_sample (samples ! i) = Some ?v"
      unfolding pcm16_value_def by (rule float_sample_Some(1))
    have len: "2 * i + 1 < length pcmData" using True "1.prems"(1) by simp
    have wr: "write_int16 pcmData i ?v = Some ?buf"
      using len by (rule write_int16_Some)
    have ih: "floatToPcm16_loop samples (i + 1) ?buf =
      Some (take (2 * (i + 1)) ?buf @
          concat (map (\<lambda>j. [ucast (pcm16_value (samples ! j)), ucast (drop_bit 8 (pcm16_value (samples ! j)))])
            [i + 1..<length samples]))"
      using True "1.prems" by (intro "1.IH" [OF True fs wr]) simp_all
    have tk: "take (2 * (i + 1)) ?buf = take (2 * i) pcmData @ [ucast ?v, ucast (drop_bit 8 ?v)]"
      using len by (simp add: take_Suc_conv_app_nth nth_list_update)
    have up: "[i..<length samples] = i # [i + 1..<length samples]"
      using True by (simp add: upt_conv_Cons)
    have "floatToPcm16_loop samples i pcmData = floatToPcm16_loop samples (i + 1) ?buf"
      by (subst floatToPcm16_loop.simps) (simp add: True fs wr del: floatToPcm16_loop.simps)
    also note ih
    also have "Some (take (2 * (i + 1)) ?buf @
          concat (map (\<lambda>j. [ucast (pcm16_value (samples ! j)), ucast (drop_bit 8 (pcm16_value (samples ! j)))])
            [i + 1..<length samples])) =
        Some (take (2 * i) pcmData @
          concat (map (\<lambda>j. [ucast (pcm16_value (samples ! j)), ucast (drop_bit 8 (pcm16_value (samples ! j)))])
            [i..<length samples]))"
      unfolding tk up by simp
    finally show ?thesis .
  qed
qed

lemma floatToPcm16_eq:
  "floatToPcm16 samples =
     Some (concat (map (\<lambda>s. [ucast (pcm16_value s), ucast (drop_bit 8 (pcm16_value s))]) samples))"
proof -
  have "map (\<lambda>j. [ucast (pcm16_value (samples ! j)), ucast (drop_bit 8 (pcm16_value (samples ! j))) :: 8 word])
          [0..<length samples] =
        map (\<lambda>s. [ucast (pcm16_value s), ucast (drop_bit 8 (pcm16_value s))]) samples"
    by (rule nth_equalityI) simp_all
  then show ?thesis
    unfolding floatToPcm16_def by (subst floatToPcm16_loop_eq) simp_all
qed

lemma concat_pairs_nth:
  assumes "i < length xs"
  shows "concat (map (\<lambda>x. [f x, g x]) xs) ! (2 * i) = f (xs ! i)"
    and "concat (map (\<lambda>x. [f x, g x]) xs) ! (2 * i + 1) = g (xs ! i)"
  using assms
proof (induction xs arbitrary: i)
  case Nil
  { case 1 then show ?case by simp }
  { case 2 then show ?case by simp }
next
  case (Cons x xs)
  { case 1 then show ?case using Cons.IH(1) [of "i - 1"] by (cases i) simp_all }
  { case 2 then show ?case using Cons.IH(2) [of "i - 1"] by (cases i) simp_all }
qed

lemma length_concat_pairs: "length (concat (map (\<lambda>x. [f x, g x]) xs)) = 2 * length xs"
  by (induction xs) simp_all

section \<open>Facts shared by the claims\<close>

lemma nth_floatToPcm16:
  assumes "i < length samples"
  shows "\<exists>out. floatToPcm16 samples = Some out \<and>
           out ! (2 * i) = ucast (pcm16_value (samples ! i)) \<and>
           out ! (2 * i + 1) = ucast (drop_bit 8 (pcm16_value (samples ! i)))"
  using assms
    concat_pairs_nth [OF assms, of "\<lambda>s. ucast (pcm16_value s)" "\<lambda>s. ucast (drop_bit 8 (pcm16_value s))"]
  by (simp add: floatToPcm16_eq)

lemma sint_pcm16_value:
  "sint (pcm16_value s) = trunc_rat (valof (fmul (clamped s) f32767))"
  unfolding pcm16_value_def by (rule float_sample_Some(4))

lemma roundtrip_single:
  "floatToPcm16 [s] = Some [ucast (pcm16_value s), ucast (drop_bit 8 (pcm16_value s))]"
  "pcm16ToFloat [ucast (pcm16_value s), ucast (drop_bit 8 (pcm16_value s))] =
     Some [pcm16_sample (pcm16_value s)]"
  by (simp_all add: floatToPcm16_eq pcm16ToFloat_eq word_cat_bytes)

lemma roundtrip_sample:
  assumes "is_finite s" "- 1 \<le> valof s" "valof s \<le> 1"
  shows "\<bar>valof (pcm16_sample (pcm16_value s)) - valof s\<bar> < 1 / 16384"
proof -
  define M where "M = mag s"
  define q where "q = \<lfloor>mag (fmul (clamped s) f32767)\<rfloor>"
  define Q :: rat where "Q = of_int q"
  note cr = clamped_in_range [OF assms]
  note pf = product_fields [of s, unfolded cr, folded M_def q_def]
  have M: "0 \<le> M" "M \<le> 1"
    using mag_nonneg [of s] assms(2,3) by (auto simp: M_def valof_def split: if_splits)
  have "of_int \<lfloor>M * 32767\<rfloor> \<le> Q" "Q \<le> of_int \<lceil>M * 32767\<rceil>"
    unfolding Q_def using pf(3,4) by (simp_all only: of_int_le_iff)
  moreover have "M * 32767 < of_int \<lfloor>M * 32767\<rfloor> + 1" "of_int \<lceil>M * 32767\<rceil> < M * 32767 + 1"
    by linarith+
  ultimately have Q: "M * 32767 - 1 < Q" "Q < M * 32767 + 1"
    by linarith+
  have "sint (pcm16_value s) = (if sign_bit s then - q else q)"
    unfolding sint_pcm16_value trunc_rat_valof pf(2) q_def cr ..
  then have v: "valof (pcm16_sample (pcm16_value s)) = (if sign_bit s then - Q else Q) / 32768"
    by (simp add: valof_pcm16_sample Q_def)
  have s: "valof s = (if sign_bit s then - M else M)"
    by (simp add: valof_def M_def)
  show ?thesis
    unfolding v s using M Q by (cases "sign_bit s") (simp_all add: abs_if field_simps)
qed

lemma pcm16_value_one: "pcm16_value f_one = 0x7FFF"
  by code_simp

lemma pcm16_value_neg_one: "pcm16_value f_neg_one = 0x8001"
  by code_simp

lemma pcm16_value_clamped_eq:
  "clamped s = clamped s' \<Longrightarrow> pcm16_value s = pcm16_value s'"
  by (simp add: pcm16_value_def)

lemma clamped_f_one: "clamped f_one = f_one"
  by code_simp

lemma clamped_f_neg_one: "clamped f_neg_one = f_neg_one"
  by code_simp

lemma clamped_above:
  assumes "flt f_one s"
  shows "clamped s = f_one"
proof -
  have "\<not> flt s f_one"
    using assms f_one_fields by (auto simp: flt_def finite_iff split: if_splits)
  then show ?thesis
    using flt_one_neg_one by (simp add: clamped_def std_max_def std_min_def)
qed

lemma clamped_below:
  assumes "flt s f_neg_one"
  shows "clamped s = f_neg_one"
proof -
  have "flt s f_one" "\<not> flt f_neg_one s"
    using assms f_one_fields f_neg_one_fields
    by (auto simp: flt_def finite_iff valof_def split: if_splits)
  then show ?thesis
    by (simp add: clamped_def std_max_def std_min_def)
qed

lemma pcm16_value_above: "flt f_one s \<Longrightarrow> pcm16_value s = 0x7FFF"
  using pcm16_value_clamped_eq [of s f_one] clamped_f_one pcm16_value_one
  by (simp add: clamped_above)

lemma pcm16_value_below: "flt s f_neg_one \<Longrightarrow> pcm16_value s = 0x8001"
  using pcm16_value_clamped_eq [of s f_neg_one] clamped_f_neg_one pcm16_value_neg_one
  by (simp add: clamped_below)

lemma sint_int16_min: "sint (word_cat (0x80 :: 8 word) (0x00 :: 8 word) :: 16 word) = - 32768"
  by code_simp

text \<open>
  The product is rounded to binary32 before it is truncated. The sample \<open>0x38000100\<close>
  times 32767 is below 1 as a rational, \<open>1 - 2^-30\<close>; the binary32 product is \<open>1.0\<close>, and
  the sample encodes to the integer 1.
\<close>

lemma encode_rounds_product:
  "valof 0x38000100 * 32767 < 1 \<and> floatToPcm16 [0x38000100] = Some [0x01, 0x00]"
proof
  show "valof 0x38000100 * 32767 < 1" by code_simp
  show "floatToPcm16 [0x38000100] = Some [0x01, 0x00]" by code_simp
qed

section \<open>The claims\<close>

text \<open>
  C1. Sample \<open>i\<close> of the decoded output is exactly the little-endian signed 16-bit
  integer of the bytes \<open>2i\<close> and \<open>2i+1\<close> divided by 32768: the division is exact in
  binary32. The bytes \<open>00 80\<close> decode to \<open>-1.0\<close>, the bytes \<open>00 00\<close> to \<open>0.0\<close>.
\<close>

theorem decode_sample_value:
  "(\<forall>i. i < length bs div 2 \<longrightarrow>
      (\<exists>out. pcm16ToFloat bs = Some out \<and> is_finite (out ! i) \<and>
         valof (out ! i) =
           of_int (sint (word_cat (bs ! (2 * i + 1)) (bs ! (2 * i)) :: 16 word)) / 32768)) \<and>
   pcm16ToFloat [0x00, 0x80] = Some [f_neg_one] \<and> valof f_neg_one = - 1 \<and>
   pcm16ToFloat [0x00, 0x00] = Some [0] \<and> valof 0 = 0"
proof (intro conjI allI impI)
  fix i
  assume "i < length bs div 2"
  then show "\<exists>out. pcm16ToFloat bs = Some out \<and> is_finite (out ! i) \<and>
         valof (out ! i) =
           of_int (sint (word_cat (bs ! (2 * i + 1)) (bs ! (2 * i)) :: 16 word)) / 32768"
    by (simp add: pcm16ToFloat_eq pcm16_sample_fields(1) valof_pcm16_sample)
next
  show "pcm16ToFloat [0x00, 0x80] = Some [f_neg_one]"
    by code_simp
next
  show "valof f_neg_one = - 1"
    using f_neg_one_fields by (simp add: valof_def)
next
  show "pcm16ToFloat [0x00, 0x00] = Some [0]"
    by code_simp
next
  show "valof 0 = 0"
    by code_simp
qed

theorem decode_sample_value_witness:
  "(1::nat) < length [0x34, 0x12, 0xFF, 0x7F, 0x01 :: 8 word] div 2 \<and>
   (\<exists>out. pcm16ToFloat [0x34, 0x12, 0xFF, 0x7F, 0x01] = Some out \<and> is_finite (out ! 1) \<and>
      valof (out ! 1) = 32767 / 32768)"
proof -
  let ?bs = "[0x34, 0x12, 0xFF, 0x7F, 0x01] :: 8 word list"
  have h: "(1::nat) < length ?bs div 2" by simp
  have s: "sint (word_cat (?bs ! (2 * 1 + 1)) (?bs ! (2 * 1)) :: 16 word) = 32767" by code_simp
  have "\<forall>i. i < length ?bs div 2 \<longrightarrow>
      (\<exists>out. pcm16ToFloat ?bs = Some out \<and> is_finite (out ! i) \<and>
         valof (out ! i) =
           of_int (sint (word_cat (?bs ! (2 * i + 1)) (?bs ! (2 * i)) :: 16 word)) / 32768)"
    using decode_sample_value [of ?bs] by (rule conjunct1)
  then have "1 < length ?bs div 2 \<longrightarrow>
      (\<exists>out. pcm16ToFloat ?bs = Some out \<and> is_finite (out ! 1) \<and>
         valof (out ! 1) =
           of_int (sint (word_cat (?bs ! (2 * 1 + 1)) (?bs ! (2 * 1)) :: 16 word)) / 32768)"
    by (rule spec)
  then have "\<exists>out. pcm16ToFloat ?bs = Some out \<and> is_finite (out ! 1) \<and>
         valof (out ! 1) =
           of_int (sint (word_cat (?bs ! (2 * 1 + 1)) (?bs ! (2 * 1)) :: 16 word)) / 32768"
    using h by (rule mp)
  then have "\<exists>out. pcm16ToFloat ?bs = Some out \<and> is_finite (out ! 1) \<and>
         valof (out ! 1) = 32767 / 32768"
    unfolding s by simp
  with h show ?thesis by (rule conjI)
qed

text \<open>
  C2. The bytes \<open>2i\<close> and \<open>2i+1\<close> of the encoded output are the low and the high byte
  of the 16-bit integer \<open>v\<close> obtained from sample \<open>i\<close> by clamping it to [-1, 1],
  multiplying the clamped value by \<open>32767.0f\<close> in binary32 and truncating the product
  toward zero. The clamped value is finite, and for an input that is not a NaN it is
  \<open>-1\<close> below the range, \<open>1\<close> above it and the input itself inside.
\<close>

theorem encode_sample_bytes:
  assumes "i < length samples"
  shows "\<exists>out (v :: 16 word). floatToPcm16 samples = Some out \<and>
           out ! (2 * i) = ucast v \<and> out ! (2 * i + 1) = ucast (drop_bit 8 v) \<and>
           sint v = trunc_rat (valof (fmul (clamped (samples ! i)) f32767)) \<and>
           is_finite (clamped (samples ! i)) \<and>
           (\<not> is_nan (samples ! i) \<longrightarrow>
              valof (clamped (samples ! i)) =
                (if flt (samples ! i) f_neg_one then - 1
                 else if flt f_one (samples ! i) then 1
                 else valof (samples ! i)))"
proof -
  from nth_floatToPcm16 [OF assms] obtain out where
    out: "floatToPcm16 samples = Some out"
      "out ! (2 * i) = ucast (pcm16_value (samples ! i))"
      "out ! (2 * i + 1) = ucast (drop_bit 8 (pcm16_value (samples ! i)))"
    by (elim exE conjE)
  have "\<not> is_nan (samples ! i) \<longrightarrow>
      valof (clamped (samples ! i)) =
        (if flt (samples ! i) f_neg_one then - 1
         else if flt f_one (samples ! i) then 1
         else valof (samples ! i))"
    by (rule impI) (rule valof_clamped)
  then show ?thesis
  proof (intro exI conjI)
    show "floatToPcm16 samples = Some out"
      by (rule out(1))
    show "out ! (2 * i) = ucast (pcm16_value (samples ! i))"
      by (rule out(2))
    show "out ! (2 * i + 1) = ucast (drop_bit 8 (pcm16_value (samples ! i)))"
      by (rule out(3))
    show "sint (pcm16_value (samples ! i)) = trunc_rat (valof (fmul (clamped (samples ! i)) f32767))"
      by (rule sint_pcm16_value)
    show "is_finite (clamped (samples ! i))"
      by (rule clamped_fields(1))
  qed
qed

theorem encode_sample_bytes_witness:
  "(1::nat) < length [0x3F000000, 0xBE800000 :: float32] \<and> \<not> is_nan 0xBE800000 \<and>
   valof 0xBE800000 = - 1 / 4 \<and>
   (\<exists>out (v :: 16 word). floatToPcm16 [0x3F000000, 0xBE800000] = Some out \<and>
      out ! 2 = ucast v \<and> out ! 3 = ucast (drop_bit 8 v) \<and> sint v = - 8191 \<and>
      valof (clamped 0xBE800000) = - 1 / 4)"
proof -
  let ?xs = "[0x3F000000, 0xBE800000] :: float32 list"
  have h: "(1::nat) < length ?xs" by simp
  have n: "\<not> is_nan 0xBE800000" by code_simp
  have v: "valof 0xBE800000 = - 1 / 4" by code_simp
  have c: "clamped 0xBE800000 = 0xBE800000" by code_simp
  have t: "trunc_rat (valof (fmul 0xBE800000 f32767)) = - 8191" by code_simp
  have f: "\<not> flt 0xBE800000 f_neg_one" "\<not> flt f_one 0xBE800000" by code_simp+
  from encode_sample_bytes [OF h] obtain out and v' :: "16 word" where
    "floatToPcm16 ?xs = Some out" "out ! (2 * 1) = ucast v'"
    "out ! (2 * 1 + 1) = ucast (drop_bit 8 v')"
    "sint v' = trunc_rat (valof (fmul (clamped (?xs ! 1)) f32767))"
    "\<not> is_nan (?xs ! 1) \<longrightarrow> valof (clamped (?xs ! 1)) =
       (if flt (?xs ! 1) f_neg_one then - 1 else if flt f_one (?xs ! 1) then 1
        else valof (?xs ! 1))"
    by (elim exE conjE)
  then have r: "floatToPcm16 ?xs = Some out" "out ! 2 = ucast v'"
      "out ! 3 = ucast (drop_bit 8 v')" "sint v' = - 8191"
      "valof (clamped 0xBE800000) = - 1 / 4"
    using n v c t f by simp_all
  show ?thesis
  proof (intro exI conjI)
    show "(1::nat) < length ?xs" by (rule h)
    show "\<not> is_nan 0xBE800000" by (rule n)
    show "valof 0xBE800000 = - 1 / 4" by (rule v)
    show "floatToPcm16 ?xs = Some out" by (rule r(1))
    show "out ! 2 = ucast v'" by (rule r(2))
    show "out ! 3 = ucast (drop_bit 8 v')" by (rule r(3))
    show "sint v' = - 8191" by (rule r(4))
    show "valof (clamped 0xBE800000) = - 1 / 4" by (rule r(5))
  qed
qed

text \<open>
  C3. A buffer of \<open>L\<close> bytes decodes to exactly \<open>L div 2\<close> samples: \<open>L / 2\<close> for an
  even \<open>L\<close>, \<open>(L - 1) / 2\<close> for an odd one, whose last byte has no effect on the result;
  the empty buffer decodes to the empty output.
\<close>

theorem decode_length:
  "(\<exists>out. pcm16ToFloat bs = Some out \<and> length out = length bs div 2 \<and>
      (even (length bs) \<longrightarrow> 2 * length out = length bs) \<and>
      (odd (length bs) \<longrightarrow> 2 * length out = length bs - 1)) \<and>
   (even (length bs) \<longrightarrow> pcm16ToFloat (bs @ [b]) = pcm16ToFloat bs) \<and>
   pcm16ToFloat [] = Some []"
proof -
  have "even (length bs) \<longrightarrow> 2 * (length bs div 2) = length bs"
    by auto
  moreover have "odd (length bs) \<longrightarrow> 2 * (length bs div 2) = length bs - 1"
    by (auto elim: oddE)
  moreover have "pcm16ToFloat (bs @ [b]) = pcm16ToFloat bs" if "even (length bs)"
  proof -
    have "length (bs @ [b]) div 2 = length bs div 2"
      using that by (auto elim: evenE)
    moreover have "(bs @ [b]) ! (2 * j + 1) = bs ! (2 * j + 1)" "(bs @ [b]) ! (2 * j) = bs ! (2 * j)"
      if "j < length bs div 2" for j
    proof -
      from that have "2 * j + 1 < length bs" by linarith
      then show "(bs @ [b]) ! (2 * j + 1) = bs ! (2 * j + 1)" "(bs @ [b]) ! (2 * j) = bs ! (2 * j)"
        by (simp_all add: nth_append)
    qed
    ultimately show ?thesis
      unfolding pcm16ToFloat_eq by (simp del: length_append cong: map_cong)
  qed
  moreover have "pcm16ToFloat [] = Some []"
    by (simp add: pcm16ToFloat_eq)
  ultimately show ?thesis
    by (simp add: pcm16ToFloat_eq)
qed

theorem decode_length_witness:
  "odd (length [0x34, 0x12, 0x56 :: 8 word]) \<and> even (length [0x34, 0x12 :: 8 word]) \<and>
   (\<exists>out. pcm16ToFloat [0x34, 0x12, 0x56] = Some out \<and> length out = 1) \<and>
   (\<exists>out. pcm16ToFloat [0x34, 0x12] = Some out \<and> length out = 1) \<and>
   pcm16ToFloat ([0x34, 0x12] @ [0x56]) = pcm16ToFloat [0x34, 0x12]"
  using decode_length [of "[0x34, 0x12, 0x56]"] decode_length [of "[0x34, 0x12]" "0x56"]
  by auto

text \<open>
  C4. A sequence of \<open>N\<close> floats encodes to exactly \<open>2 * N\<close> bytes, the empty sequence to
  the empty buffer.
\<close>

theorem encode_length:
  "(\<exists>out. floatToPcm16 samples = Some out \<and> length out = 2 * length samples) \<and>
   floatToPcm16 [] = Some []"
  by (simp add: floatToPcm16_eq length_concat_pairs)

text \<open>
  C5, as stated. The sample \<open>65535/65536\<close> lies in [-1, 1] and is positive, far from the
  negative extreme; it encodes to the integer 32766 and decodes to \<open>32766/32768\<close>, which
  is \<open>3/65536\<close> away from it, more than \<open>1/32767\<close>. So does a sample in the middle of
  the range: \<open>-0.7f\<close> comes back as \<open>-22936/32768\<close>, which is \<open>819/16777216\<close> away.
\<close>

theorem roundtrip_tolerance_counterexample:
  "is_finite 0x3F7FFF00 \<and> valof 0x3F7FFF00 = 65535 / 65536 \<and>
   floatToPcm16 [0x3F7FFF00] = Some [0xFE, 0x7F] \<and>
   pcm16ToFloat [0xFE, 0x7F] = Some [0x3F7FFC00] \<and>
   \<bar>valof 0x3F7FFC00 - valof 0x3F7FFF00\<bar> = 3 / 65536 \<and>
   \<not> \<bar>valof 0x3F7FFC00 - valof 0x3F7FFF00\<bar> \<le> 1 / 32767 \<and>
   is_finite 0xBF333333 \<and> valof 0xBF333333 = - 11744051 / 16777216 \<and>
   floatToPcm16 [0xBF333333] = Some [0x68, 0xA6] \<and>
   pcm16ToFloat [0x68, 0xA6] = Some [0xBF333000] \<and>
   \<bar>valof 0xBF333000 - valof 0xBF333333\<bar> = 819 / 16777216 \<and>
   \<not> \<bar>valof 0xBF333000 - valof 0xBF333333\<bar> \<le> 1 / 32767"
proof -
  have a: "valof 0x3F7FFF00 = 65535 / 65536" by code_simp
  have b: "valof 0x3F7FFC00 = 32766 / 32768" by code_simp
  have c: "valof 0xBF333333 = - 11744051 / 16777216" by code_simp
  have d: "valof 0xBF333000 = - 22936 / 32768" by code_simp
  show ?thesis
  proof (intro conjI)
    show "is_finite 0x3F7FFF00" by code_simp
    show "valof 0x3F7FFF00 = 65535 / 65536" by (rule a)
    show "floatToPcm16 [0x3F7FFF00] = Some [0xFE, 0x7F]" by code_simp
    show "pcm16ToFloat [0xFE, 0x7F] = Some [0x3F7FFC00]" by code_simp
    show "\<bar>valof 0x3F7FFC00 - valof 0x3F7FFF00\<bar> = 3 / 65536" unfolding a b by simp
    show "\<not> \<bar>valof 0x3F7FFC00 - valof 0x3F7FFF00\<bar> \<le> 1 / 32767" unfolding a b by simp
    show "is_finite 0xBF333333" by code_simp
    show "valof 0xBF333333 = - 11744051 / 16777216" by (rule c)
    show "floatToPcm16 [0xBF333333] = Some [0x68, 0xA6]" by code_simp
    show "pcm16ToFloat [0x68, 0xA6] = Some [0xBF333000]" by code_simp
    show "\<bar>valof 0xBF333000 - valof 0xBF333333\<bar> = 819 / 16777216" unfolding c d by simp
    show "\<not> \<bar>valof 0xBF333000 - valof 0xBF333333\<bar> \<le> 1 / 32767" unfolding c d by simp
  qed
qed

text \<open>
  C5, amended. For every finite sample \<open>s\<close> in [-1, 1], positive or negative, encoding
  \<open>[s]\<close> and decoding the result gives one sample that differs from \<open>s\<close> by less than
  \<open>1/16384\<close>, that is \<open>2/32768\<close>.
\<close>

theorem roundtrip_bound:
  assumes "is_finite s" "- 1 \<le> valof s" "valof s \<le> 1"
  shows "\<exists>bytes out. floatToPcm16 [s] = Some bytes \<and> pcm16ToFloat bytes = Some out \<and>
           length out = 1 \<and> \<bar>valof (out ! 0) - valof s\<bar> < 1 / 16384"
proof (intro exI conjI)
  show "floatToPcm16 [s] = Some [ucast (pcm16_value s), ucast (drop_bit 8 (pcm16_value s))]"
    by (rule roundtrip_single(1))
  show "pcm16ToFloat [ucast (pcm16_value s), ucast (drop_bit 8 (pcm16_value s))] =
     Some [pcm16_sample (pcm16_value s)]"
    by (rule roundtrip_single(2))
  show "length [pcm16_sample (pcm16_value s)] = 1"
    by simp
  show "\<bar>valof ([pcm16_sample (pcm16_value s)] ! 0) - valof s\<bar> < 1 / 16384"
    using roundtrip_sample [OF assms] by simp
qed

theorem roundtrip_bound_witness:
  "is_finite 0x3F7FFF00 \<and> - 1 \<le> valof 0x3F7FFF00 \<and> valof 0x3F7FFF00 \<le> 1 \<and>
   (\<exists>bytes out. floatToPcm16 [0x3F7FFF00] = Some bytes \<and> pcm16ToFloat bytes = Some out \<and>
      length out = 1 \<and> \<bar>valof (out ! 0) - valof 0x3F7FFF00\<bar> < 1 / 16384)"
proof -
  have a: "valof 0x3F7FFF00 = 65535 / 65536" by code_simp
  have h: "is_finite 0x3F7FFF00" "- 1 \<le> valof 0x3F7FFF00" "valof 0x3F7FFF00 \<le> 1"
    unfolding a by (code_simp, simp_all)
  from h roundtrip_bound [OF h] show ?thesis by (intro conjI)
qed

text \<open>
  C6. An input outside [-1, 1] encodes as the boundary does. Every sample above
  \<open>1.0\<close>, at any position of any sequence, is clamped to \<open>1.0\<close> and gives the bytes
  \<open>FF 7F\<close>, the integer 32767, and alone it encodes to what \<open>[1.0]\<close> encodes to; every
  sample below \<open>-1.0\<close> is clamped to \<open>-1.0\<close> and gives the bytes \<open>01 80\<close>, the integer
  -32767, and alone it encodes to what \<open>[-1.0]\<close> encodes to. In particular \<open>1.5\<close> and
  \<open>1.0\<close> both give \<open>FF 7F\<close>, and \<open>-2.0\<close> and \<open>-1.0\<close> both give \<open>01 80\<close>.
\<close>

theorem encode_clamps_out_of_range:
  "(i < length samples \<and> flt f_one (samples ! i) \<longrightarrow>
      clamped (samples ! i) = f_one \<and>
      (\<exists>out. floatToPcm16 samples = Some out \<and>
         out ! (2 * i) = 0xFF \<and> out ! (2 * i + 1) = 0x7F)) \<and>
   (i < length samples \<and> flt (samples ! i) f_neg_one \<longrightarrow>
      clamped (samples ! i) = f_neg_one \<and>
      (\<exists>out. floatToPcm16 samples = Some out \<and>
         out ! (2 * i) = 0x01 \<and> out ! (2 * i + 1) = 0x80)) \<and>
   (flt f_one s \<longrightarrow>
      floatToPcm16 [s] = floatToPcm16 [f_one] \<and> floatToPcm16 [s] = Some [0xFF, 0x7F]) \<and>
   (flt s f_neg_one \<longrightarrow>
      floatToPcm16 [s] = floatToPcm16 [f_neg_one] \<and> floatToPcm16 [s] = Some [0x01, 0x80]) \<and>
   valof 0x3FC00000 = 3 / 2 \<and> valof f_one = 1 \<and>
   floatToPcm16 [0x3FC00000] = Some [0xFF, 0x7F] \<and> floatToPcm16 [f_one] = Some [0xFF, 0x7F] \<and>
   sint (word_cat (0x7F :: 8 word) (0xFF :: 8 word) :: 16 word) = 32767 \<and>
   valof 0xC0000000 = - 2 \<and> valof f_neg_one = - 1 \<and>
   floatToPcm16 [0xC0000000] = Some [0x01, 0x80] \<and> floatToPcm16 [f_neg_one] = Some [0x01, 0x80] \<and>
   sint (word_cat (0x80 :: 8 word) (0x01 :: 8 word) :: 16 word) = - 32767"
proof -
  have one: "floatToPcm16 [f_one] = Some [0xFF, 0x7F]"
    by (simp add: roundtrip_single(1) pcm16_value_one)
  have neg: "floatToPcm16 [f_neg_one] = Some [0x01, 0x80]"
    by (simp add: roundtrip_single(1) pcm16_value_neg_one)
  show ?thesis
  proof (intro conjI impI)
    assume h: "i < length samples \<and> flt f_one (samples ! i)"
    then show "clamped (samples ! i) = f_one"
      by (simp add: clamped_above)
    from h nth_floatToPcm16 [of i samples] obtain out where
      "floatToPcm16 samples = Some out"
      "out ! (2 * i) = ucast (pcm16_value (samples ! i))"
      "out ! (2 * i + 1) = ucast (drop_bit 8 (pcm16_value (samples ! i)))"
      by auto
    then have "floatToPcm16 samples = Some out \<and> out ! (2 * i) = 0xFF \<and> out ! (2 * i + 1) = 0x7F"
      using h by (simp add: pcm16_value_above)
    then show "\<exists>out. floatToPcm16 samples = Some out \<and>
         out ! (2 * i) = 0xFF \<and> out ! (2 * i + 1) = 0x7F" ..
  next
    assume h: "i < length samples \<and> flt (samples ! i) f_neg_one"
    then show "clamped (samples ! i) = f_neg_one"
      by (simp add: clamped_below)
    from h nth_floatToPcm16 [of i samples] obtain out where
      "floatToPcm16 samples = Some out"
      "out ! (2 * i) = ucast (pcm16_value (samples ! i))"
      "out ! (2 * i + 1) = ucast (drop_bit 8 (pcm16_value (samples ! i)))"
      by auto
    then have "floatToPcm16 samples = Some out \<and> out ! (2 * i) = 0x01 \<and> out ! (2 * i + 1) = 0x80"
      using h by (simp add: pcm16_value_below)
    then show "\<exists>out. floatToPcm16 samples = Some out \<and>
         out ! (2 * i) = 0x01 \<and> out ! (2 * i + 1) = 0x80" ..
  next
    assume h: "flt f_one s"
    then show s1: "floatToPcm16 [s] = Some [0xFF, 0x7F]"
      by (simp add: roundtrip_single(1) pcm16_value_above)
    show "floatToPcm16 [s] = floatToPcm16 [f_one]"
      unfolding s1 one ..
  next
    assume h: "flt s f_neg_one"
    then show s1: "floatToPcm16 [s] = Some [0x01, 0x80]"
      by (simp add: roundtrip_single(1) pcm16_value_below)
    show "floatToPcm16 [s] = floatToPcm16 [f_neg_one]"
      unfolding s1 neg ..
  next
    show "valof 0x3FC00000 = 3 / 2" by code_simp
    show "valof f_one = 1" by code_simp
    show "floatToPcm16 [0x3FC00000] = Some [0xFF, 0x7F]" by code_simp
    show "floatToPcm16 [f_one] = Some [0xFF, 0x7F]" by (rule one)
    show "sint (word_cat (0x7F :: 8 word) (0xFF :: 8 word) :: 16 word) = 32767" by code_simp
    show "valof 0xC0000000 = - 2" by code_simp
    show "valof f_neg_one = - 1" by code_simp
    show "floatToPcm16 [0xC0000000] = Some [0x01, 0x80]" by code_simp
    show "floatToPcm16 [f_neg_one] = Some [0x01, 0x80]" by (rule neg)
    show "sint (word_cat (0x80 :: 8 word) (0x01 :: 8 word) :: 16 word) = - 32767" by code_simp
  qed
qed

theorem encode_clamps_out_of_range_witness:
  "(1::nat) < length [0xC2C80000, 0x40490FDB :: float32] \<and>
   flt f_one 0x40490FDB \<and> flt 0xC2C80000 f_neg_one \<and>
   valof 0x40490FDB = 13176795 / 4194304 \<and> valof 0xC2C80000 = - 100 \<and>
   (\<exists>out. floatToPcm16 [0xC2C80000, 0x40490FDB] = Some out \<and>
      out ! 0 = 0x01 \<and> out ! 1 = 0x80 \<and> out ! 2 = 0xFF \<and> out ! 3 = 0x7F) \<and>
   floatToPcm16 [0x40490FDB] = floatToPcm16 [f_one] \<and>
   floatToPcm16 [0xC2C80000] = floatToPcm16 [f_neg_one]"
proof -
  let ?xs = "[0xC2C80000, 0x40490FDB] :: float32 list"
  have a: "flt f_one 0x40490FDB" by code_simp
  have b: "flt 0xC2C80000 f_neg_one" by code_simp
  have va: "valof 0x40490FDB = 13176795 / 4194304" by code_simp
  have vb: "valof 0xC2C80000 = - 100" by code_simp
  from encode_clamps_out_of_range [of 1 ?xs] a obtain out where
    o: "floatToPcm16 ?xs = Some out" and o1: "out ! 2 = 0xFF" "out ! 3 = 0x7F"
    by auto
  from encode_clamps_out_of_range [of 0 ?xs] b o have o0: "out ! 0 = 0x01" "out ! 1 = 0x80"
    by auto
  have e1: "floatToPcm16 [0x40490FDB] = floatToPcm16 [f_one]"
    using encode_clamps_out_of_range [of 0 "[]" "0x40490FDB"] a by blast
  have e2: "floatToPcm16 [0xC2C80000] = floatToPcm16 [f_neg_one]"
    using encode_clamps_out_of_range [of 0 "[]" "0xC2C80000"] b by blast
  show ?thesis
  proof (intro exI conjI)
    show "floatToPcm16 ?xs = Some out" by (rule o)
  qed (use a b va vb o0 o1 e1 e2 in simp_all)
qed

text \<open>
  C7. Neither conversion has an input on which it fails: every byte sequence decodes
  without a read or write outside a buffer, and every sequence of binary32 patterns,
  NaNs and infinities among them, encodes without an undefined float-to-integer cast.
\<close>

theorem codec_total:
  "(\<exists>out. pcm16ToFloat bs = Some out) \<and> (\<exists>out. floatToPcm16 samples = Some out)"
  by (simp add: pcm16ToFloat_eq floatToPcm16_eq)

theorem codec_total_witness:
  "(\<exists>out. pcm16ToFloat [0x00, 0x80, 0xFF] = Some out) \<and>
   (\<exists>out. floatToPcm16 [0x7FC00000, 0x7F800000, 0xFF800000, 0x7F7FFFFF] = Some out)"
  using codec_total [of "[0x00, 0x80, 0xFF]" "[0x7FC00000, 0x7F800000, 0xFF800000, 0x7F7FFFFF]"]
  by simp

text \<open>
  C9. A NaN element is clamped to \<open>1.0\<close>, because \<open>std::min(1.0f, NaN)\<close> is \<open>1.0f\<close>,
  and encodes to the bytes \<open>FF 7F\<close>, the integer 32767; \<open>+infinity\<close> encodes to the same
  bytes, and \<open>-infinity\<close> to the bytes \<open>01 80\<close>, the integer -32767.
\<close>

theorem encode_nan_inf:
  assumes "i < length samples"
  shows "\<exists>out. floatToPcm16 samples = Some out \<and>
     (is_nan (samples ! i) \<longrightarrow>
        std_min f_one (samples ! i) = f_one \<and> clamped (samples ! i) = f_one \<and>
        out ! (2 * i) = 0xFF \<and> out ! (2 * i + 1) = 0x7F) \<and>
     (is_inf (samples ! i) \<and> \<not> sign_bit (samples ! i) \<longrightarrow>
        out ! (2 * i) = 0xFF \<and> out ! (2 * i + 1) = 0x7F) \<and>
     (is_inf (samples ! i) \<and> sign_bit (samples ! i) \<longrightarrow>
        out ! (2 * i) = 0x01 \<and> out ! (2 * i + 1) = 0x80) \<and>
     sint (word_cat (0x7F :: 8 word) (0xFF :: 8 word) :: 16 word) = 32767 \<and>
     sint (word_cat (0x80 :: 8 word) (0x01 :: 8 word) :: 16 word) = - 32767"
proof -
  let ?s = "samples ! i"
  from nth_floatToPcm16 [OF assms] obtain out where
    out: "floatToPcm16 samples = Some out"
      "out ! (2 * i) = ucast (pcm16_value ?s)"
      "out ! (2 * i + 1) = ucast (drop_bit 8 (pcm16_value ?s))"
    by (elim exE conjE)
  have one: "out ! (2 * i) = 0xFF \<and> out ! (2 * i + 1) = 0x7F" if "clamped ?s = f_one"
  proof -
    have "pcm16_value ?s = 0x7FFF"
      using pcm16_value_clamped_eq [of ?s f_one] that clamped_f_one pcm16_value_one by simp
    then show ?thesis unfolding out(2,3) by simp
  qed
  have neg: "out ! (2 * i) = 0x01 \<and> out ! (2 * i + 1) = 0x80" if "clamped ?s = f_neg_one"
  proof -
    have "pcm16_value ?s = 0x8001"
      using pcm16_value_clamped_eq [of ?s f_neg_one] that clamped_f_neg_one pcm16_value_neg_one
      by simp
    then show ?thesis unfolding out(2,3) by simp
  qed
  show ?thesis
  proof (intro exI conjI impI)
    show "floatToPcm16 samples = Some out" by (rule out(1))
  next
    assume n: "is_nan ?s"
    then show "std_min f_one ?s = f_one" by (simp add: std_min_def flt_def)
    show "clamped ?s = f_one" using n by (rule clamped_nan)
    then show "out ! (2 * i) = 0xFF" "out ! (2 * i + 1) = 0x7F" using one by simp_all
  next
    assume "is_inf ?s \<and> \<not> sign_bit ?s"
    then have "clamped ?s = f_one" by (simp add: clamped_pos_inf)
    then show "out ! (2 * i) = 0xFF" "out ! (2 * i + 1) = 0x7F" using one by simp_all
  next
    assume "is_inf ?s \<and> sign_bit ?s"
    then have "clamped ?s = f_neg_one" by (simp add: clamped_neg_inf)
    then show "out ! (2 * i) = 0x01" "out ! (2 * i + 1) = 0x80" using neg by simp_all
  next
    show "sint (word_cat (0x7F :: 8 word) (0xFF :: 8 word) :: 16 word) = 32767" by code_simp
    show "sint (word_cat (0x80 :: 8 word) (0x01 :: 8 word) :: 16 word) = - 32767" by code_simp
  qed
qed

theorem encode_nan_inf_witness:
  "(2::nat) < length [0x7FC00001, 0x7F800000, 0xFF800000 :: float32] \<and>
   is_nan 0x7FC00001 \<and> is_inf 0x7F800000 \<and> \<not> sign_bit 0x7F800000 \<and>
   is_inf 0xFF800000 \<and> sign_bit 0xFF800000 \<and>
   (\<exists>out. floatToPcm16 [0x7FC00001, 0x7F800000, 0xFF800000] = Some out \<and>
      out ! 0 = 0xFF \<and> out ! 1 = 0x7F \<and> out ! 2 = 0xFF \<and> out ! 3 = 0x7F \<and>
      out ! 4 = 0x01 \<and> out ! 5 = 0x80)"
proof -
  let ?xs = "[0x7FC00001, 0x7F800000, 0xFF800000] :: float32 list"
  have h: "(0::nat) < length ?xs" "(1::nat) < length ?xs" "(2::nat) < length ?xs"
    by simp_all
  have c: "is_nan 0x7FC00001" "is_inf 0x7F800000" "\<not> sign_bit 0x7F800000"
    "is_inf 0xFF800000" "sign_bit 0xFF800000"
    by code_simp+
  from encode_nan_inf [OF h(1)] c(1) obtain out where
    o: "floatToPcm16 ?xs = Some out" and o0: "out ! 0 = 0xFF" "out ! 1 = 0x7F"
    by auto
  from encode_nan_inf [OF h(2)] c(2,3) o have o1: "out ! 2 = 0xFF" "out ! 3 = 0x7F"
    by auto
  from encode_nan_inf [OF h(3)] c(4,5) o have o2: "out ! 4 = 0x01" "out ! 5 = 0x80"
    by auto
  show ?thesis
  proof (intro exI conjI)
    show "floatToPcm16 ?xs = Some out" by (rule o)
  qed (use h c o0 o1 o2 in simp_all)
qed

text \<open>
  C10. Every 16-bit integer that encode writes lies between -32767 and 32767: the
  value -32768, the bytes \<open>00 80\<close> at an aligned offset, is never produced.
\<close>

theorem encode_int16_range:
  assumes "i < length samples"
  shows "\<exists>out. floatToPcm16 samples = Some out \<and>
     - 32767 \<le> sint (word_cat (out ! (2 * i + 1)) (out ! (2 * i)) :: 16 word) \<and>
     sint (word_cat (out ! (2 * i + 1)) (out ! (2 * i)) :: 16 word) \<le> 32767 \<and>
     \<not> (out ! (2 * i) = 0x00 \<and> out ! (2 * i + 1) = 0x80)"
proof -
  let ?v = "pcm16_value (samples ! i)"
  from nth_floatToPcm16 [OF assms] obtain out where
    out: "floatToPcm16 samples = Some out"
      "out ! (2 * i) = ucast ?v"
      "out ! (2 * i + 1) = ucast (drop_bit 8 ?v)"
    by (elim exE conjE)
  have cat: "(word_cat (out ! (2 * i + 1)) (out ! (2 * i)) :: 16 word) = ?v"
    unfolding out(2,3) by (rule word_cat_bytes)
  have lo: "- 32767 \<le> sint ?v" and hi: "sint ?v \<le> 32767"
    unfolding sint_pcm16_value by (rule float_sample_Some(2), rule float_sample_Some(3))
  have "\<not> (out ! (2 * i) = 0x00 \<and> out ! (2 * i + 1) = 0x80)"
  proof
    assume "out ! (2 * i) = 0x00 \<and> out ! (2 * i + 1) = 0x80"
    then have "sint ?v = - 32768"
      unfolding cat [symmetric] using sint_int16_min by simp
    with lo show False by simp
  qed
  with out(1) lo hi show ?thesis
    unfolding cat [symmetric] by (intro exI conjI)
qed

theorem encode_int16_range_witness:
  "(0::nat) < length [0xFF7FFFFF :: float32] \<and>
   (\<exists>out. floatToPcm16 [0xFF7FFFFF] = Some out \<and>
     - 32767 \<le> sint (word_cat (out ! 1) (out ! 0) :: 16 word) \<and>
     sint (word_cat (out ! 1) (out ! 0) :: 16 word) \<le> 32767 \<and>
     \<not> (out ! 0 = 0x00 \<and> out ! 1 = 0x80))"
proof -
  have h: "(0::nat) < length [0xFF7FFFFF :: float32]" by simp
  from encode_int16_range [OF h] h show ?thesis by simp
qed

end
